theory Spec2Isabelle
  imports Complex_Main "HOL-Library.Monad_Syntax"
begin

section \<open>Lazy enumerators of linq.hpp\<close>

text \<open>
  The library is a hierarchy of cursors. The abstract class \<^verbatim>\<open>enumerator<T>\<close> has three
  virtual operations, \<^verbatim>\<open>operator*\<close>, \<^verbatim>\<open>operator++\<close> and \<^verbatim>\<open>operator bool\<close>; every
  adapter holds its parent by reference (\<^verbatim>\<open>enumerator<T> &parent_\<close>) and forwards to it.

  The embedding passes the state explicitly. An object is a record of its three virtual
  operations over a state type \<open>'s\<close>; an adapter is a function from the parent's record to
  the adapter's record. Since the parent is held by reference, the adapter's state
  contains the parent's state: whatever the adapter does to the parent is visible in it.

  The names follow the source. The fields \<open>op_star\<close>, \<open>op_incr\<close> and \<open>op_bool\<close> are
  \<^verbatim>\<open>operator*\<close>, \<^verbatim>\<open>operator++\<close> and \<^verbatim>\<open>operator bool\<close>. For a class \<^verbatim>\<open>X_enumerator\<close>, the
  functions \<open>X_star\<close>, \<open>X_incr\<close> and \<open>X_bool\<close> are its overrides, \<open>X_enumerator\<close> is the
  record of them, and \<open>X_new\<close> is its constructor where the constructor has a body or a
  field to set: the state in which the new object starts. The members \<^verbatim>\<open>drop\<close>, \<^verbatim>\<open>take\<close>,
  \<^verbatim>\<open>select\<close>, \<^verbatim>\<open>until\<close> and \<^verbatim>\<open>where\<close> of the base class only call these constructors, and
  \<^verbatim>\<open>from\<close> only calls the one of \<^verbatim>\<open>range_enumerator\<close>. The members \<^verbatim>\<open>until_eq\<close> and
  \<^verbatim>\<open>where_neq\<close> build a predicate that reads their argument through a reference at every
  call; they are left out. The fields \<^verbatim>\<open>begin_\<close>, \<^verbatim>\<open>end_\<close>,
  \<^verbatim>\<open>parent_\<close> and \<^verbatim>\<open>last_\<close> are \<open>r_begin\<close>, \<open>r_end\<close>, \<open>t_parent\<close> and \<open>t_last\<close>.

  Every operation returns an option. \<open>None\<close> is an execution without a defined result:
  reading or incrementing an iterator that is past the end of its container, overflowing
  a signed \<^verbatim>\<open>int\<close>, or a loop that never exits. The functions and predicates that the
  caller supplies are total HOL functions.
\<close>

subsection \<open>The abstract class and its two sinks\<close>

record ('s, 'a) enumerator =
  op_star :: "'s \<Rightarrow> 'a option"
  op_incr :: "'s \<Rightarrow> 's option"
  op_bool :: "'s \<Rightarrow> bool option"

text \<open>
  \<^verbatim>\<open>to_vector\<close>: \<^verbatim>\<open>while (*this) { result.push_back(**this); ++(*this); }\<close>.
  The loop runs as long as the enumerator says so, hence a partial function. The result
  is the vector together with the state the enumerator is left in.
\<close>

partial_function (option) to_vector_loop ::
  "('s, 'a) enumerator \<Rightarrow> 'a list \<Rightarrow> 's \<Rightarrow> ('a list \<times> 's) option" where
  "to_vector_loop e result s =
     do {
       b \<leftarrow> op_bool e s;
       if b then do {
         v \<leftarrow> op_star e s;
         s' \<leftarrow> op_incr e s;
         to_vector_loop e (result @ [v]) s'
       } else Some (result, s)
     }"

declare to_vector_loop.simps [code]

definition to_vector :: "('s, 'a) enumerator \<Rightarrow> 's \<Rightarrow> ('a list \<times> 's) option" where
  "to_vector e s = to_vector_loop e [] s"

text \<open>
  \<^verbatim>\<open>copy_to(Iter it)\<close>: \<^verbatim>\<open>while ((bool) *this) { *it = **this; ++(*this); ++it; }\<close>.
  The output iterator is a template parameter. It is modelled as a position \<open>it\<close> in a
  destination buffer \<open>out\<close>; writing through a position outside the buffer has no defined
  result. The function returns nothing in the source: its effect is the buffer and the
  state of the enumerator.
\<close>

definition write_at :: "'a list \<Rightarrow> nat \<Rightarrow> 'a \<Rightarrow> 'a list option" where
  "write_at out it v = (if it < length out then Some (out[it := v]) else None)"

partial_function (option) copy_to_loop ::
  "('s, 'a) enumerator \<Rightarrow> 'a list \<Rightarrow> nat \<Rightarrow> 's \<Rightarrow> ('a list \<times> 's) option" where
  "copy_to_loop e out it s =
     do {
       b \<leftarrow> op_bool e s;
       if b then do {
         v \<leftarrow> op_star e s;
         out' \<leftarrow> write_at out it v;
         s' \<leftarrow> op_incr e s;
         copy_to_loop e out' (it + 1) s'
       } else Some (out, s)
     }"

declare copy_to_loop.simps [code]

definition copy_to ::
  "('s, 'a) enumerator \<Rightarrow> 'a list \<Rightarrow> nat \<Rightarrow> 's \<Rightarrow> ('a list \<times> 's) option" where
  "copy_to e out it s = copy_to_loop e out it s"

subsection \<open>\<^verbatim>\<open>range_enumerator\<close>\<close>

text \<open>
  The source cursor keeps two iterators, \<^verbatim>\<open>begin_\<close> and \<^verbatim>\<open>end_\<close>. The iterator type is a
  template parameter; here an iterator is a position in a container \<open>xs\<close>, from \<open>0\<close> to
  \<open>length xs\<close> (the past-the-end position). A position below \<open>length xs\<close> can be read and
  incremented; the past-the-end position cannot. \<^verbatim>\<open>operator bool\<close> is the source's
  \<^verbatim>\<open>begin_ != end_\<close>, an inequality and not an order.
\<close>

record range_state =
  r_begin :: nat
  r_end :: nat

definition range_new :: "nat \<Rightarrow> nat \<Rightarrow> range_state" where
  "range_new b e = \<lparr>r_begin = b, r_end = e\<rparr>"

definition range_star :: "'a list \<Rightarrow> range_state \<Rightarrow> 'a option" where
  "range_star xs s = (if r_begin s < length xs then Some (xs ! r_begin s) else None)"

definition range_incr :: "'a list \<Rightarrow> range_state \<Rightarrow> range_state option" where
  "range_incr xs s =
     (if r_begin s < length xs then Some (s\<lparr>r_begin := r_begin s + 1\<rparr>) else None)"

definition range_bool :: "range_state \<Rightarrow> bool option" where
  "range_bool s = Some (r_begin s \<noteq> r_end s)"

definition range_enumerator :: "'a list \<Rightarrow> (range_state, 'a) enumerator" where
  "range_enumerator xs =
     \<lparr>op_star = range_star xs, op_incr = range_incr xs, op_bool = range_bool\<rparr>"

subsection \<open>\<^verbatim>\<open>drop_enumerator\<close>\<close>

text \<open>
  The constructor runs \<^verbatim>\<open>for (int i = 0; i < count; ++i) ++parent_;\<close>. The loop tests the
  counter only. Afterwards the three operations forward to the parent.
\<close>

function drop_loop :: "('s, 'a) enumerator \<Rightarrow> int \<Rightarrow> int \<Rightarrow> 's \<Rightarrow> 's option" where
  "drop_loop p i count s =
     (if i < count then do { s' \<leftarrow> op_incr p s; drop_loop p (i + 1) count s' }
      else Some s)"
  by pat_completeness auto
termination
  by (relation "measure (\<lambda>(p, i, count, s). nat (count - i))") auto

declare drop_loop.simps [simp del]

definition drop_new :: "('s, 'a) enumerator \<Rightarrow> int \<Rightarrow> 's \<Rightarrow> 's option" where
  "drop_new p count s = drop_loop p 0 count s"

definition drop_enumerator :: "('s, 'a) enumerator \<Rightarrow> ('s, 'a) enumerator" where
  "drop_enumerator p =
     \<lparr>op_star = op_star p, op_incr = op_incr p, op_bool = op_bool p\<rparr>"

subsection \<open>\<^verbatim>\<open>take_enumerator\<close>\<close>

text \<open>
  The adapter has a field of its own, \<^verbatim>\<open>int last_\<close>. The counter is an integer here, and
  the one place where the machine integer matters is written out: \<^verbatim>\<open>--last_\<close> at the
  least \<^verbatim>\<open>int\<close> is a signed overflow.
\<close>

record 's take_state =
  t_parent :: 's
  t_last :: int

definition INT_MIN :: int where
  "INT_MIN = - 2147483648"

definition take_new :: "'s \<Rightarrow> int \<Rightarrow> 's take_state" where
  "take_new s n = \<lparr>t_parent = s, t_last = n\<rparr>"

definition take_star :: "('s, 'a) enumerator \<Rightarrow> 's take_state \<Rightarrow> 'a option" where
  "take_star p t = op_star p (t_parent t)"

definition take_incr :: "('s, 'a) enumerator \<Rightarrow> 's take_state \<Rightarrow> 's take_state option" where
  "take_incr p t =
     (if t_last t = INT_MIN then None
      else let l = t_last t - 1 in
        if l > 0 then do { s' \<leftarrow> op_incr p (t_parent t); Some \<lparr>t_parent = s', t_last = l\<rparr> }
        else Some \<lparr>t_parent = t_parent t, t_last = l\<rparr>)"

definition take_bool :: "('s, 'a) enumerator \<Rightarrow> 's take_state \<Rightarrow> bool option" where
  "take_bool p t = do { b \<leftarrow> op_bool p (t_parent t); Some (b \<and> t_last t > 0) }"

definition take_enumerator :: "('s, 'a) enumerator \<Rightarrow> ('s take_state, 'a) enumerator" where
  "take_enumerator p =
     \<lparr>op_star = take_star p, op_incr = take_incr p, op_bool = take_bool p\<rparr>"

subsection \<open>\<^verbatim>\<open>select_enumerator\<close>\<close>

text \<open>
  The constructor stores the parent and the function; the state is the parent's.
  \<^verbatim>\<open>U operator*() const { return func_(*parent_); }\<close>: the adapter's element type \<^verbatim>\<open>U\<close> is a
  template parameter of its own, which \<^verbatim>\<open>enumerator::select\<close> defaults to the parent's
  \<^verbatim>\<open>T\<close>, and the \<^verbatim>\<open>return\<close> converts the result of \<^verbatim>\<open>func_\<close> to it. The result type \<open>'r\<close> of
  \<open>func\<close> and the element type \<open>'b\<close> are therefore two types, and the implicit conversion
  between them is the parameter \<open>to_U\<close>; it is the identity when \<^verbatim>\<open>func_\<close> returns \<^verbatim>\<open>U\<close>.
\<close>

definition select_star ::
  "('s, 'a) enumerator \<Rightarrow> ('a \<Rightarrow> 'r) \<Rightarrow> ('r \<Rightarrow> 'b) \<Rightarrow> 's \<Rightarrow> 'b option" where
  "select_star p func to_U s = do { v \<leftarrow> op_star p s; Some (to_U (func v)) }"

definition select_enumerator ::
  "('s, 'a) enumerator \<Rightarrow> ('a \<Rightarrow> 'r) \<Rightarrow> ('r \<Rightarrow> 'b) \<Rightarrow> ('s, 'b) enumerator" where
  "select_enumerator p func to_U =
     \<lparr>op_star = select_star p func to_U, op_incr = op_incr p, op_bool = op_bool p\<rparr>"

text \<open>
  The conversion of a \<^verbatim>\<open>double\<close> to an \<^verbatim>\<open>int\<close> discards the fraction. It is used on
  halves of small integers only, which a \<^verbatim>\<open>double\<close> holds exactly; they are rationals here.
\<close>

definition double_to_int :: "rat \<Rightarrow> int" where
  "double_to_int r = (if 0 \<le> r then \<lfloor>r\<rfloor> else \<lceil>r\<rceil>)"

subsection \<open>\<^verbatim>\<open>until_enumerator\<close>\<close>

text \<open>
  \<^verbatim>\<open>operator bool\<close> is \<^verbatim>\<open>(bool) parent_ && !predicate_(*parent_)\<close>: the parent is read only
  when it has an element. \<^verbatim>\<open>operator++\<close> is \<^verbatim>\<open>if ((bool) *this) ++parent_;\<close>.
\<close>

definition until_bool :: "('s, 'a) enumerator \<Rightarrow> ('a \<Rightarrow> bool) \<Rightarrow> 's \<Rightarrow> bool option" where
  "until_bool p predicate s =
     do {
       b \<leftarrow> op_bool p s;
       if b then do { v \<leftarrow> op_star p s; Some (\<not> predicate v) } else Some False
     }"

definition until_incr :: "('s, 'a) enumerator \<Rightarrow> ('a \<Rightarrow> bool) \<Rightarrow> 's \<Rightarrow> 's option" where
  "until_incr p predicate s =
     do { b \<leftarrow> until_bool p predicate s; if b then op_incr p s else Some s }"

definition until_enumerator :: "('s, 'a) enumerator \<Rightarrow> ('a \<Rightarrow> bool) \<Rightarrow> ('s, 'a) enumerator" where
  "until_enumerator p predicate =
     \<lparr>op_star = op_star p, op_incr = until_incr p predicate, op_bool = until_bool p predicate\<rparr>"

subsection \<open>\<^verbatim>\<open>where_enumerator\<close>\<close>

text \<open>
  \<^verbatim>\<open>operator bool\<close> forwards to the parent. \<^verbatim>\<open>operator++\<close> advances the parent once and then
  runs \<^verbatim>\<open>while ((bool) *this && !predicate_(*parent_)) ++parent_;\<close>. The constructor is
  \<^verbatim>\<open>if ((bool) parent_ && !predicate_(*parent_)) ++(*this);\<close>.
\<close>

definition where_bool :: "('s, 'a) enumerator \<Rightarrow> 's \<Rightarrow> bool option" where
  "where_bool p s = op_bool p s"

partial_function (option) where_loop ::
  "('s, 'a) enumerator \<Rightarrow> ('a \<Rightarrow> bool) \<Rightarrow> 's \<Rightarrow> 's option" where
  "where_loop p predicate s =
     do {
       b \<leftarrow> where_bool p s;
       if b then do {
         v \<leftarrow> op_star p s;
         if \<not> predicate v then do { s' \<leftarrow> op_incr p s; where_loop p predicate s' }
         else Some s
       } else Some s
     }"

declare where_loop.simps [code]

definition where_incr :: "('s, 'a) enumerator \<Rightarrow> ('a \<Rightarrow> bool) \<Rightarrow> 's \<Rightarrow> 's option" where
  "where_incr p predicate s = do { s' \<leftarrow> op_incr p s; where_loop p predicate s' }"

definition where_new :: "('s, 'a) enumerator \<Rightarrow> ('a \<Rightarrow> bool) \<Rightarrow> 's \<Rightarrow> 's option" where
  "where_new p predicate s =
     do {
       b \<leftarrow> op_bool p s;
       if b then do {
         v \<leftarrow> op_star p s;
         if \<not> predicate v then where_incr p predicate s else Some s
       } else Some s
     }"

definition where_enumerator :: "('s, 'a) enumerator \<Rightarrow> ('a \<Rightarrow> bool) \<Rightarrow> ('s, 'a) enumerator" where
  "where_enumerator p predicate =
     \<lparr>op_star = op_star p, op_incr = where_incr p predicate, op_bool = where_bool p\<rparr>"

section \<open>Notions used to state the properties\<close>

text \<open>
  A range is well formed when \<^verbatim>\<open>begin_\<close> can reach \<^verbatim>\<open>end_\<close> inside the container; its
  elements are those between the two positions.
\<close>

definition valid_range :: "'a list \<Rightarrow> range_state \<Rightarrow> bool" where
  "valid_range xs s = (r_begin s \<le> r_end s \<and> r_end s \<le> length xs)"

definition range_elems :: "'a list \<Rightarrow> range_state \<Rightarrow> 'a list" where
  "range_elems xs s = take (r_end s - r_begin s) (drop (r_begin s) xs)"

text \<open>A caller that applies \<^verbatim>\<open>operator++\<close> \<open>n\<close> times in a row.\<close>

fun advance_n :: "('s, 'a) enumerator \<Rightarrow> nat \<Rightarrow> 's \<Rightarrow> 's option" where
  "advance_n e 0 s = Some s"
| "advance_n e (Suc n) s = op_incr e s \<bind> advance_n e n"

text \<open>
  The invariant of the filter: if the parent has an element, the element passes the
  predicate.
\<close>

definition where_inv :: "('s, 'a) enumerator \<Rightarrow> ('a \<Rightarrow> bool) \<Rightarrow> 's \<Rightarrow> bool" where
  "where_inv p predicate s =
     (case op_bool p s of
        Some True \<Rightarrow> (case op_star p s of Some v \<Rightarrow> predicate v | None \<Rightarrow> False)
      | _ \<Rightarrow> True)"

text \<open>
  The run of a sink as a relation: \<open>drains e s ys s'\<close> holds when the loop
  \<^verbatim>\<open>while (e) { read *e; ++e; }\<close> started in state \<open>s\<close> reads \<open>ys\<close> and stops in \<open>s'\<close>.
  It is the graph of \<open>to_vector\<close> (lemma \<open>to_vector_iff\<close>) and gives the induction
  principle for every statement about a sink.
\<close>

inductive drains :: "('s, 'a) enumerator \<Rightarrow> 's \<Rightarrow> 'a list \<Rightarrow> 's \<Rightarrow> bool" for e where
  drains_stop: "op_bool e s = Some False \<Longrightarrow> drains e s [] s"
| drains_step: "op_bool e s = Some True \<Longrightarrow> op_star e s = Some v \<Longrightarrow> op_incr e s = Some s1 \<Longrightarrow>
     drains e s1 ys s' \<Longrightarrow> drains e s (v # ys) s'"

code_pred drains .

section \<open>The sinks and the adapters over an arbitrary parent\<close>

subsection \<open>\<open>drains\<close> is the graph of \<open>to_vector\<close>\<close>

lemma drains_to_vector_loop:
  "drains e s ys s' \<Longrightarrow> to_vector_loop e acc s = Some (acc @ ys, s')"
proof (induction arbitrary: acc rule: drains.induct)
  case (drains_stop s)
  then show ?case by (subst to_vector_loop.simps) simp
next
  case (drains_step s v s1 ys s')
  from drains_step.IH [of "acc @ [v]"] drains_step.hyps(1-3)
  show ?case by (subst to_vector_loop.simps) simp
qed

lemma to_vector_loop_drains:
  assumes "to_vector_loop e acc s = Some r"
  shows "\<exists>ys. fst r = acc @ ys \<and> drains e s ys (snd r)"
proof (rule to_vector_loop.raw_induct
    [where P = "\<lambda>e acc s r. \<exists>ys. fst r = acc @ ys \<and> drains e s ys (snd r)", OF _ assms],
    goal_cases)
  case (1 loop e acc s r)
  note IH = 1(1) and eq = 1(2)
  from eq obtain b where b: "op_bool e s = Some b"
    by (cases "op_bool e s") auto
  show ?case
  proof (cases b)
    case False
    with b eq show ?thesis by (auto intro: drains_stop)
  next
    case True
    with b eq obtain v s1 where v: "op_star e s = Some v" and s1: "op_incr e s = Some s1"
      and l: "loop e (acc @ [v]) s1 = Some r"
      by (auto split: bind_splits)
    from IH [OF l] obtain ys where "fst r = (acc @ [v]) @ ys" "drains e s1 ys (snd r)"
      by blast
    with True b v s1 show ?thesis by (auto intro: drains_step)
  qed
qed

lemma to_vector_iff: "to_vector e s = Some (ys, s') \<longleftrightarrow> drains e s ys s'"
  unfolding to_vector_def
  using drains_to_vector_loop [of e s ys s' "[]"] to_vector_loop_drains [of e "[]" s "(ys, s')"]
  by auto

lemma drains_exhausted: "drains e s ys s' \<Longrightarrow> op_bool e s' = Some False"
  by (induction rule: drains.induct) auto

lemma drains_Cons_star: "drains p s (v # ys) s' \<Longrightarrow> op_star p s = Some v"
  by (erule drains.cases) auto

text \<open>A well-formed range drains to its elements and ends with \<^verbatim>\<open>begin_ == end_\<close>.\<close>

lemma drains_range:
  "valid_range xs s \<Longrightarrow>
   drains (range_enumerator xs) s (range_elems xs s) (s\<lparr>r_begin := r_end s\<rparr>)"
proof (induction "r_end s - r_begin s" arbitrary: s)
  case 0
  then have eq: "r_begin s = r_end s" by (simp add: valid_range_def)
  then have "s\<lparr>r_begin := r_end s\<rparr> = s" using eq [symmetric] by simp
  moreover have "drains (range_enumerator xs) s [] s"
    using eq by (intro drains_stop) (simp add: range_enumerator_def range_bool_def)
  ultimately show ?case using eq [symmetric] by (simp add: range_elems_def)
next
  case (Suc n)
  let ?s1 = "s\<lparr>r_begin := r_begin s + 1\<rparr>"
  from Suc.hyps(2) Suc.prems have lt: "r_begin s < r_end s" "r_begin s < length xs"
    by (auto simp: valid_range_def)
  have v1: "valid_range xs ?s1" using lt Suc.prems by (simp add: valid_range_def)
  have n: "n = r_end ?s1 - r_begin ?s1" using Suc.hyps(2) by simp
  have d: "drop (r_begin s) xs = xs ! r_begin s # drop (Suc (r_begin s)) xs"
    using lt(2) by (simp add: Cons_nth_drop_Suc)
  have k: "r_end s - r_begin s = Suc (r_end s - Suc (r_begin s))"
    using lt(1) by simp
  have el: "range_elems xs s = xs ! r_begin s # range_elems xs ?s1"
    unfolding range_elems_def by (subst k, subst d) simp
  from Suc.hyps(1) [OF n v1] have "drains (range_enumerator xs) ?s1 (range_elems xs ?s1) (s\<lparr>r_begin := r_end s\<rparr>)"
    by simp
  then show ?case unfolding el
    using lt by (intro drains_step [where ?s1.0 = ?s1])
      (auto simp: range_enumerator_def range_bool_def range_star_def range_incr_def)
qed

subsection \<open>The filter\<close>

text \<open>
  The constructor is one unfolding of the loop of \<^verbatim>\<open>operator++\<close>. Over a parent that drains
  to \<open>ys\<close>, the loop stops in a state that satisfies the invariant, from which the filter
  drains to the elements of \<open>ys\<close> that pass, and from which the parent still drains.
\<close>

lemma where_new_loop: "where_new p P s = where_loop p P s"
  by (subst where_loop.simps, unfold where_new_def where_incr_def where_bool_def, rule refl)

lemma where_loop_drains:
  "drains p s ys s' \<Longrightarrow>
   \<exists>s1 zs. where_loop p P s = Some s1 \<and> drains (where_enumerator p P) s1 (filter P ys) s'
     \<and> where_inv p P s1 \<and> drains p s1 zs s'"
proof (induction rule: drains.induct)
  case (drains_stop s)
  have "where_loop p P s = Some s"
    using drains_stop by (subst where_loop.simps) (simp add: where_bool_def)
  moreover have "drains (where_enumerator p P) s [] s"
    using drains_stop by (intro drains.drains_stop) (simp add: where_enumerator_def where_bool_def)
  moreover have "where_inv p P s" using drains_stop by (simp add: where_inv_def)
  moreover have "drains p s [] s" using drains_stop by (rule drains.drains_stop)
  ultimately show ?case by auto
next
  case (drains_step s v s1 ys s')
  from drains_step.IH obtain s2 zs where l: "where_loop p P s1 = Some s2"
    and d: "drains (where_enumerator p P) s2 (filter P ys) s'"
    and i: "where_inv p P s2" and z: "drains p s2 zs s'"
    by blast
  show ?case
  proof (cases "P v")
    case True
    have "where_loop p P s = Some s"
      using drains_step.hyps(1,2) True by (subst where_loop.simps) (simp add: where_bool_def)
    moreover have "drains (where_enumerator p P) s (v # filter P ys) s'"
      using drains_step.hyps(1-3) l d
      by (intro drains.drains_step [where ?s1.0 = s2])
        (simp_all add: where_enumerator_def where_bool_def where_incr_def)
    moreover have "where_inv p P s"
      using drains_step.hyps(1,2) True by (simp add: where_inv_def)
    moreover have "drains p s (v # ys) s'"
      using drains_step.hyps by (intro drains.drains_step)
    ultimately show ?thesis using True by auto
  next
    case False
    have "where_loop p P s = Some s2"
      using drains_step.hyps(1-3) False l by (subst where_loop.simps) (simp add: where_bool_def)
    with d i z False show ?thesis by auto
  qed
qed

lemma where_incr_drains:
  assumes "drains p s ys s'" and "op_bool p s = Some True"
  shows "\<exists>s1 zs. where_incr p P s = Some s1 \<and> where_inv p P s1 \<and> drains p s1 zs s'"
  using assms
proof (cases rule: drains.cases)
  case drains_stop
  with assms(2) show ?thesis by simp
next
  case (drains_step v s1 ys')
  from where_loop_drains [OF drains_step(5), of P] drains_step(4)
  show ?thesis by (auto simp: where_incr_def)
qed

subsection \<open>The map\<close>

lemma select_drains:
  "drains p s ys s' \<Longrightarrow> drains (select_enumerator p f c) s (map (\<lambda>x. c (f x)) ys) s'"
proof (induction rule: drains.induct)
  case (drains_stop s)
  then show ?case by (simp, intro drains.drains_stop) (simp add: select_enumerator_def)
next
  case (drains_step s v s1 ys s')
  then show ?case
    by (simp, intro drains.drains_step [where ?s1.0 = s1])
      (simp_all add: select_enumerator_def select_star_def)
qed

lemma select_drains_conv:
  "drains (select_enumerator p f c) s zs s' \<Longrightarrow>
   \<exists>ys. zs = map (\<lambda>x. c (f x)) ys \<and> drains p s ys s'"
proof (induction rule: drains.induct)
  case (drains_stop s)
  then have "drains p s [] s" by (intro drains.drains_stop) (simp add: select_enumerator_def)
  then show ?case by auto
next
  case (drains_step s v s1 zs s')
  from drains_step.IH obtain ys where ys: "zs = map (\<lambda>x. c (f x)) ys" "drains p s1 ys s'"
    by blast
  from drains_step.hyps(2) obtain u where u: "op_star p s = Some u" "v = c (f u)"
    by (auto simp: select_enumerator_def select_star_def split: bind_splits)
  have "drains p s (u # ys) s'"
    using drains_step.hyps(1,3) u ys
    by (intro drains.drains_step [where ?s1.0 = s1]) (simp_all add: select_enumerator_def)
  with ys u show ?case by (intro exI [of _ "u # ys"]) simp
qed

lemma select_select:
  "select_enumerator (select_enumerator p f c) g d = select_enumerator p (\<lambda>x. g (c (f x))) d"
  by (simp add: select_enumerator_def select_star_def fun_eq_iff)

lemma to_vector_select:
  "to_vector (select_enumerator p f c) s
     = map_option (\<lambda>(ys, s'). (map (\<lambda>x. c (f x)) ys, s')) (to_vector p s)"
proof (cases "to_vector p s")
  case None
  show ?thesis
  proof (cases "to_vector (select_enumerator p f c) s")
    case n: None
    with None show ?thesis by simp
  next
    case (Some r)
    then have "drains (select_enumerator p f c) s (fst r) (snd r)"
      by (cases r) (simp add: to_vector_iff)
    from select_drains_conv [OF this] obtain ys where "drains p s ys (snd r)" by blast
    then have "to_vector p s = Some (ys, snd r)" by (simp add: to_vector_iff)
    with None show ?thesis by simp
  qed
next
  case (Some r)
  then have "drains p s (fst r) (snd r)" by (cases r) (simp add: to_vector_iff)
  then have "drains (select_enumerator p f c) s (map (\<lambda>x. c (f x)) (fst r)) (snd r)"
    by (rule select_drains)
  then have "to_vector (select_enumerator p f c) s = Some (map (\<lambda>x. c (f x)) (fst r), snd r)"
    by (simp add: to_vector_iff)
  with Some show ?thesis by (cases r) simp
qed

subsection \<open>Copying\<close>

lemma copy_to_loop_drains:
  "drains e s ys s' \<Longrightarrow> it + length ys \<le> length out \<Longrightarrow>
   copy_to_loop e out it s = Some (take it out @ ys @ drop (it + length ys) out, s')"
proof (induction arbitrary: out it rule: drains.induct)
  case (drains_stop s)
  then show ?case by (subst copy_to_loop.simps) simp
next
  case (drains_step s v s1 ys s')
  from drains_step.prems have lt: "it < length out" and le: "Suc it + length ys \<le> length (out[it := v])"
    by simp_all
  have "take (Suc it) (out[it := v]) @ ys @ drop (Suc it + length ys) (out[it := v])
      = take it out @ (v # ys) @ drop (it + length (v # ys)) out"
    using lt by (simp add: take_Suc_conv_app_nth)
  with drains_step.IH [OF le] drains_step.hyps(1-3) lt
  show ?case by (subst copy_to_loop.simps) (simp add: write_at_def)
qed

subsection \<open>Take-until\<close>

lemma until_drains:
  "drains p s ys s' \<Longrightarrow>
   \<exists>s1. drains (until_enumerator p P) s (takeWhile (\<lambda>x. \<not> P x) ys) s1
     \<and> advance_n p (length (takeWhile (\<lambda>x. \<not> P x) ys)) s = Some s1"
proof (induction rule: drains.induct)
  case (drains_stop s)
  then have "drains (until_enumerator p P) s [] s"
    by (intro drains.drains_stop) (simp add: until_enumerator_def until_bool_def)
  then show ?case by simp
next
  case (drains_step s v s1 ys s')
  show ?case
  proof (cases "P v")
    case True
    have "drains (until_enumerator p P) s [] s"
      using drains_step.hyps(1,2) True
      by (intro drains.drains_stop) (simp add: until_enumerator_def until_bool_def)
    with True show ?thesis by simp
  next
    case False
    from drains_step.IH obtain s2 where
      d: "drains (until_enumerator p P) s1 (takeWhile (\<lambda>x. \<not> P x) ys) s2"
      and a: "advance_n p (length (takeWhile (\<lambda>x. \<not> P x) ys)) s1 = Some s2"
      by blast
    have "drains (until_enumerator p P) s (v # takeWhile (\<lambda>x. \<not> P x) ys) s2"
      using drains_step.hyps(1-3) False d
      by (intro drains.drains_step [where ?s1.0 = s1])
        (simp_all add: until_enumerator_def until_bool_def until_incr_def)
    with False a drains_step.hyps(3) show ?thesis by simp
  qed
qed

lemma advance_n_until_stopped:
  "until_bool p P s = Some False \<Longrightarrow> advance_n (until_enumerator p P) n s = Some s"
  by (induction n) (simp_all add: until_enumerator_def until_incr_def)

subsection \<open>The limit\<close>

text \<open>
  Three cases: a count that is not positive, a count within the number of elements
  (written \<open>n + 1\<close>), and a count beyond it.
\<close>

lemma take_drains_nonpos:
  "op_bool p s = Some b \<Longrightarrow> k \<le> 0 \<Longrightarrow>
   drains (take_enumerator p) \<lparr>t_parent = s, t_last = k\<rparr> [] \<lparr>t_parent = s, t_last = k\<rparr>"
  by (intro drains_stop) (simp add: take_enumerator_def take_bool_def)

lemma take_drains_within:
  "drains p s ys s' \<Longrightarrow> n < length ys \<Longrightarrow>
   \<exists>sn. advance_n p n s = Some sn \<and>
     drains (take_enumerator p) \<lparr>t_parent = s, t_last = int n + 1\<rparr> (take (Suc n) ys)
       \<lparr>t_parent = sn, t_last = 0\<rparr>"
proof (induction arbitrary: n rule: drains.induct)
  case (drains_stop s)
  then show ?case by simp
next
  case (drains_step s v s1 ys s')
  show ?case
  proof (cases n)
    case 0
    have "drains (take_enumerator p) \<lparr>t_parent = s, t_last = 0\<rparr> [] \<lparr>t_parent = s, t_last = 0\<rparr>"
      using drains_step.hyps(1) by (intro take_drains_nonpos) simp_all
    then have "drains (take_enumerator p) \<lparr>t_parent = s, t_last = 1\<rparr> [v] \<lparr>t_parent = s, t_last = 0\<rparr>"
      using drains_step.hyps(1,2)
      by (intro drains.drains_step [where ?s1.0 = "\<lparr>t_parent = s, t_last = 0\<rparr>"])
        (simp_all add: take_enumerator_def take_bool_def take_star_def take_incr_def INT_MIN_def)
    with 0 show ?thesis by simp
  next
    case (Suc m)
    with drains_step.prems have m: "m < length ys" by simp
    from drains_step.IH [OF m] obtain sn where a: "advance_n p m s1 = Some sn"
      and d: "drains (take_enumerator p) \<lparr>t_parent = s1, t_last = int m + 1\<rparr> (take (Suc m) ys)
        \<lparr>t_parent = sn, t_last = 0\<rparr>"
      by blast
    have "drains (take_enumerator p) \<lparr>t_parent = s, t_last = int m + 2\<rparr> (v # take (Suc m) ys)
        \<lparr>t_parent = sn, t_last = 0\<rparr>"
      using drains_step.hyps(1-3) d
      by (intro drains.drains_step [where ?s1.0 = "\<lparr>t_parent = s1, t_last = int m + 1\<rparr>"])
        (simp_all add: take_enumerator_def take_bool_def take_star_def take_incr_def INT_MIN_def)
    with Suc a drains_step.hyps(3) show ?thesis by (simp add: add.commute)
  qed
qed

lemma take_drains_beyond:
  "drains p s ys s' \<Longrightarrow> int (length ys) < k \<Longrightarrow>
   drains (take_enumerator p) \<lparr>t_parent = s, t_last = k\<rparr> ys
     \<lparr>t_parent = s', t_last = k - int (length ys)\<rparr>"
proof (induction arbitrary: k rule: drains.induct)
  case (drains_stop s)
  then show ?case by (simp, intro drains.drains_stop) (simp add: take_enumerator_def take_bool_def)
next
  case (drains_step s v s1 ys s')
  from drains_step.prems have k: "int (length ys) < k - 1" by simp
  from drains_step.IH [OF k] drains_step.hyps(1-3) k
  show ?case
    by (intro drains.drains_step [where ?s1.0 = "\<lparr>t_parent = s1, t_last = k - 1\<rparr>"])
      (simp_all add: take_enumerator_def take_bool_def take_star_def take_incr_def INT_MIN_def
        algebra_simps)
qed

subsection \<open>Skipping\<close>

text \<open>The constructor's loop is \<open>count\<close> unconditional advances of the parent.\<close>

lemma drop_loop_advance: "drop_loop p i count s = advance_n p (nat (count - i)) s"
proof (induction p i count s rule: drop_loop.induct)
  case (1 p i count s)
  show ?case
  proof (cases "i < count")
    case True
    then have n: "nat (count - i) = Suc (nat (count - (i + 1)))" by simp
    show ?thesis
      using True 1 by (subst drop_loop.simps, subst n) (simp cong: Option.bind_cong)
  next
    case False
    then show ?thesis by (subst drop_loop.simps) simp
  qed
qed

lemma advance_n_drains:
  "drains p s ys s' \<Longrightarrow> n \<le> length ys \<Longrightarrow>
   \<exists>s1. advance_n p n s = Some s1 \<and> drains p s1 (drop n ys) s'"
proof (induction arbitrary: n rule: drains.induct)
  case (drains_stop s)
  then show ?case by (auto intro: drains.drains_stop)
next
  case (drains_step s v s1 ys s')
  show ?case
  proof (cases n)
    case 0
    with drains_step.hyps show ?thesis by (auto intro: drains.drains_step)
  next
    case (Suc m)
    with drains_step.prems drains_step.IH [of m] drains_step.hyps(3) show ?thesis by simp
  qed
qed

lemma advance_n_range:
  "r_begin s \<le> length xs \<Longrightarrow> advance_n (range_enumerator xs) n s =
     (if r_begin s + n \<le> length xs then Some (s\<lparr>r_begin := r_begin s + n\<rparr>) else None)"
proof (induction n arbitrary: s)
  case 0
  then show ?case by simp
next
  case (Suc n)
  then show ?case
    by (cases "r_begin s < length xs")
      (simp_all add: range_enumerator_def range_incr_def)
qed

lemma drop_new_advance: "drop_new p count s = advance_n p (nat count) s"
  by (simp add: drop_new_def drop_loop_advance)

lemma drop_within_range:
  assumes "valid_range xs s" and "0 \<le> k" and "nat k \<le> length (range_elems xs s)"
  shows "drop_new (range_enumerator xs) k s = Some (s\<lparr>r_begin := r_begin s + nat k\<rparr>)"
    and "drop_new (range_enumerator xs) k s \<bind> to_vector (drop_enumerator (range_enumerator xs))
      = Some (drop (nat k) (range_elems xs s), s\<lparr>r_begin := r_end s\<rparr>)"
proof -
  from assms have le: "r_begin s + nat k \<le> length xs" "r_begin s \<le> length xs"
    by (auto simp: valid_range_def range_elems_def)
  then show 1: "drop_new (range_enumerator xs) k s = Some (s\<lparr>r_begin := r_begin s + nat k\<rparr>)"
    by (simp add: drop_new_advance advance_n_range)
  have e: "drop_enumerator (range_enumerator xs) = range_enumerator xs"
    by (simp add: drop_enumerator_def)
  from advance_n_drains [OF drains_range [OF assms(1)] assms(3)] 1
  have "drains (range_enumerator xs) (s\<lparr>r_begin := r_begin s + nat k\<rparr>)
      (drop (nat k) (range_elems xs s)) (s\<lparr>r_begin := r_end s\<rparr>)"
    by (simp add: drop_new_advance)
  with 1 show "drop_new (range_enumerator xs) k s \<bind> to_vector (drop_enumerator (range_enumerator xs))
      = Some (drop (nat k) (range_elems xs s), s\<lparr>r_begin := r_end s\<rparr>)"
    by (simp add: e to_vector_iff)
qed

section \<open>The claims\<close>

subsection \<open>Filtering\<close>

text \<open>
  C1. For every well-formed range and every predicate, constructing the filter over the
  range and collecting it returns exactly the elements of the range that satisfy the
  predicate, in their order, and leaves the range exhausted. Nothing that matches is
  skipped and the run does not stop early. In particular, when no element satisfies the
  predicate the result is the empty vector, and it is a defined result.
\<close>

theorem where_collect:
  "valid_range xs s \<Longrightarrow>
   where_new (range_enumerator xs) P s \<bind> to_vector (where_enumerator (range_enumerator xs) P)
     = Some (filter P (range_elems xs s), s\<lparr>r_begin := r_end s\<rparr>)
   \<and> ((\<forall>x \<in> set (range_elems xs s). \<not> P x) \<longrightarrow>
     where_new (range_enumerator xs) P s \<bind> to_vector (where_enumerator (range_enumerator xs) P)
       = Some ([], s\<lparr>r_begin := r_end s\<rparr>))"
proof -
  assume "valid_range xs s"
  then have "drains (range_enumerator xs) s (range_elems xs s) (s\<lparr>r_begin := r_end s\<rparr>)"
    by (rule drains_range)
  from where_loop_drains [OF this, of P] obtain s1 where
    "where_new (range_enumerator xs) P s = Some s1"
    "to_vector (where_enumerator (range_enumerator xs) P) s1
       = Some (filter P (range_elems xs s), s\<lparr>r_begin := r_end s\<rparr>)"
    by (auto simp: where_new_loop to_vector_iff)
  then have "where_new (range_enumerator xs) P s \<bind> to_vector (where_enumerator (range_enumerator xs) P)
     = Some (filter P (range_elems xs s), s\<lparr>r_begin := r_end s\<rparr>)"
    by simp
  then show ?thesis by (simp add: filter_empty_conv [THEN iffD2])
qed

text \<open>The even elements of a sub-range, and a predicate that nothing satisfies.\<close>

theorem where_collect_witness:
  "valid_range [1, 2, 3, 4, 5, 6 :: int] (range_new 1 5)
   \<and> where_new (range_enumerator [1, 2, 3, 4, 5, 6 :: int]) (\<lambda>x. x mod 2 = 0) (range_new 1 5)
       \<bind> to_vector (where_enumerator (range_enumerator [1, 2, 3, 4, 5, 6 :: int]) (\<lambda>x. x mod 2 = 0))
     = Some ([2, 4], range_new 5 5)
   \<and> range_elems [1, 2, 3, 4, 5, 6 :: int] (range_new 1 5) = [2, 3, 4, 5]
   \<and> where_new (range_enumerator [1, 2, 3, 4, 5, 6 :: int]) (\<lambda>x. 9 < x) (range_new 1 5)
       \<bind> to_vector (where_enumerator (range_enumerator [1, 2, 3, 4, 5, 6 :: int]) (\<lambda>x. 9 < x))
     = Some ([], range_new 5 5)"
  using where_collect [of "[1, 2, 3, 4, 5, 6 :: int]" "range_new 1 5" "\<lambda>x. x mod 2 = 0"]
    where_collect [of "[1, 2, 3, 4, 5, 6 :: int]" "range_new 1 5" "\<lambda>x. 9 < x"]
  by (simp add: valid_range_def range_elems_def range_new_def)

text \<open>
  C2. The invariant of the filter holds after construction and after every advance.
  The parent is any cursor that a sink can drain from state \<open>s\<close>, that is, a finite and
  well-defined one. Then the constructor returns, and the state it returns satisfies
  the invariant: if the parent has an element there, the element passes the predicate.
  If the filter has an element in \<open>s\<close>, its \<^verbatim>\<open>operator++\<close> returns, and the state it returns
  satisfies the invariant. In both cases the parent can still be drained from the new
  state, so the two facts apply again after every advance. The filter's \<^verbatim>\<open>operator bool\<close>
  is the parent's; where the invariant holds and it answers true, the next read returns
  an element that passes the predicate.
\<close>

theorem where_invariant:
  "to_vector p s = Some (ys, s') \<Longrightarrow>
   (\<exists>s1 zs. where_new p P s = Some s1 \<and> where_inv p P s1 \<and> to_vector p s1 = Some (zs, s'))
   \<and> (op_bool p s = Some True \<longrightarrow>
        (\<exists>s1 zs. op_incr (where_enumerator p P) s = Some s1 \<and> where_inv p P s1
           \<and> to_vector p s1 = Some (zs, s')))
   \<and> op_bool (where_enumerator p P) s = op_bool p s
   \<and> (where_inv p P s \<and> op_bool (where_enumerator p P) s = Some True \<longrightarrow>
        (\<exists>v. op_star (where_enumerator p P) s = Some v \<and> P v))"
proof -
  assume "to_vector p s = Some (ys, s')"
  then have d: "drains p s ys s'" by (simp add: to_vector_iff)
  have 1: "\<exists>s1 zs. where_new p P s = Some s1 \<and> where_inv p P s1 \<and> to_vector p s1 = Some (zs, s')"
    using where_loop_drains [OF d, of P] by (auto simp: where_new_loop to_vector_iff)
  have 2: "op_bool p s = Some True \<longrightarrow>
        (\<exists>s1 zs. op_incr (where_enumerator p P) s = Some s1 \<and> where_inv p P s1
           \<and> to_vector p s1 = Some (zs, s'))"
    using where_incr_drains [OF d, of P] by (auto simp: where_enumerator_def to_vector_iff)
  have 3: "op_bool (where_enumerator p P) s = op_bool p s"
    by (simp add: where_enumerator_def where_bool_def fun_eq_iff)
  have 4: "where_inv p P s \<and> op_bool (where_enumerator p P) s = Some True \<longrightarrow>
        (\<exists>v. op_star (where_enumerator p P) s = Some v \<and> P v)"
    by (auto simp: where_inv_def where_enumerator_def where_bool_def split: option.splits)
  from 1 2 3 4 show ?thesis by blast
qed

text \<open>The range \<open>[2, 3, 4]\<close> of a container, filtered for even numbers.\<close>

theorem where_invariant_witness:
  "to_vector (range_enumerator [1, 2, 3, 4 :: int]) (range_new 1 4) = Some ([2, 3, 4], range_new 4 4)
   \<and> op_bool (range_enumerator [1, 2, 3, 4 :: int]) (range_new 1 4) = Some True
   \<and> where_inv (range_enumerator [1, 2, 3, 4 :: int]) (\<lambda>x. x mod 2 = 0) (range_new 1 4)
   \<and> (\<exists>s1 zs. where_new (range_enumerator [1, 2, 3, 4 :: int]) (\<lambda>x. x mod 2 = 0) (range_new 1 4) = Some s1
         \<and> where_inv (range_enumerator [1, 2, 3, 4 :: int]) (\<lambda>x. x mod 2 = 0) s1
         \<and> to_vector (range_enumerator [1, 2, 3, 4 :: int]) s1 = Some (zs, range_new 4 4))
   \<and> (\<exists>s1 zs. op_incr (where_enumerator (range_enumerator [1, 2, 3, 4 :: int]) (\<lambda>x. x mod 2 = 0))
           (range_new 1 4) = Some s1
         \<and> where_inv (range_enumerator [1, 2, 3, 4 :: int]) (\<lambda>x. x mod 2 = 0) s1
         \<and> to_vector (range_enumerator [1, 2, 3, 4 :: int]) s1 = Some (zs, range_new 4 4))
   \<and> (\<exists>v. op_star (where_enumerator (range_enumerator [1, 2, 3, 4 :: int]) (\<lambda>x. x mod 2 = 0))
           (range_new 1 4) = Some v \<and> v mod 2 = 0)"
proof -
  have h: "to_vector (range_enumerator [1, 2, 3, 4 :: int]) (range_new 1 4)
      = Some ([2, 3, 4], range_new 4 4)"
    by code_simp
  have b: "op_bool (range_enumerator [1, 2, 3, 4 :: int]) (range_new 1 4) = Some True"
    by (simp add: range_enumerator_def range_bool_def range_new_def)
  have i: "where_inv (range_enumerator [1, 2, 3, 4 :: int]) (\<lambda>x. x mod 2 = 0) (range_new 1 4)"
    by (simp add: where_inv_def range_enumerator_def range_bool_def range_star_def range_new_def)
  have w: "op_bool (where_enumerator (range_enumerator [1, 2, 3, 4 :: int]) (\<lambda>x. x mod 2 = 0))
      (range_new 1 4) = Some True"
    by (simp add: where_enumerator_def where_bool_def range_enumerator_def range_bool_def range_new_def)
  from where_invariant [OF h, of "\<lambda>x. x mod 2 = 0"] h b i w show ?thesis by blast
qed

subsection \<open>Skipping\<close>

text \<open>
  C3. The constructor of \<^verbatim>\<open>drop_enumerator\<close> advances the parent \<open>count\<close> times and never asks
  the parent whether it has an element (lemma \<open>drop_new_advance\<close>). As long as the count
  does not exceed the number of elements, the adapter yields the range without its first
  \<open>count\<close> elements (lemma \<open>drop_within_range\<close>). Past that, the constructor increments an
  iterator that is already at the end of the container: a range of one element with a
  count of two has no defined result, neither from the constructor nor from a sink. The
  property that skipping past the end leaves the adapter exhausted therefore fails.
\<close>

theorem drop_past_the_end:
  "valid_range [7 :: int] (range_new 0 1)
   \<and> range_elems [7 :: int] (range_new 0 1) = [7]
   \<and> drop_new (range_enumerator [7 :: int]) 2 (range_new 0 1) = None
   \<and> drop_new (range_enumerator [7 :: int]) 2 (range_new 0 1)
        \<bind> to_vector (drop_enumerator (range_enumerator [7 :: int])) = None"
  by (simp add: valid_range_def range_elems_def range_new_def drop_new_def drop_loop.simps
      range_enumerator_def range_incr_def)

text \<open>
  When the range ends before its container does, the extra increment is defined and steps
  over \<^verbatim>\<open>end_\<close>; the adapter is then not exhausted and reads an element outside the range.
\<close>

lemma drop_steps_over_end_of_subrange:
  "valid_range [7, 8, 9 :: int] (range_new 0 1)
   \<and> range_elems [7, 8, 9 :: int] (range_new 0 1) = [7]
   \<and> drop_new (range_enumerator [7, 8, 9 :: int]) 2 (range_new 0 1) = Some (range_new 2 1)
   \<and> op_bool (drop_enumerator (range_enumerator [7, 8, 9 :: int])) (range_new 2 1) = Some True
   \<and> op_star (drop_enumerator (range_enumerator [7, 8, 9 :: int])) (range_new 2 1) = Some 9"
  by (simp add: valid_range_def range_elems_def range_new_def drop_new_def drop_loop.simps
      range_enumerator_def range_incr_def drop_enumerator_def range_bool_def range_star_def)

subsection \<open>Limiting\<close>

text \<open>
  C4. For every well-formed range and every count \<open>k \<ge> 0\<close>, collecting \<^verbatim>\<open>take(k)\<close> over the
  range returns the first \<open>min k |R|\<close> elements of the range, in order, and that many of
  them. With count \<open>0\<close> the adapter is exhausted from the start and collects nothing,
  whatever the parent and its state are, provided the parent can say whether it has an
  element.
\<close>

theorem take_collect:
  "(valid_range xs s \<and> 0 \<le> k \<longrightarrow>
      (\<exists>ys t. to_vector (take_enumerator (range_enumerator xs)) (take_new s k) = Some (ys, t)
         \<and> ys = take (nat k) (range_elems xs s)
         \<and> length ys = min (nat k) (length (range_elems xs s))))
   \<and> (op_bool p r = Some b \<longrightarrow>
        op_bool (take_enumerator p) (take_new r 0) = Some False
        \<and> to_vector (take_enumerator p) (take_new r 0) = Some ([], take_new r 0))"
proof -
  have 1: "\<exists>ys t. to_vector (take_enumerator (range_enumerator xs)) (take_new s k) = Some (ys, t)
         \<and> ys = take (nat k) (range_elems xs s)
         \<and> length ys = min (nat k) (length (range_elems xs s))"
    if v: "valid_range xs s" and k: "0 \<le> k"
  proof -
    let ?R = "range_elems xs s"
    from v have d: "drains (range_enumerator xs) s ?R (s\<lparr>r_begin := r_end s\<rparr>)"
      by (rule drains_range)
    have "\<exists>t. drains (take_enumerator (range_enumerator xs)) (take_new s k) (take (nat k) ?R) t"
    proof -
      consider "k = 0" | "0 < k" "nat k \<le> length ?R" | "length ?R < nat k"
        using k by linarith
      then show ?thesis
      proof cases
        case 1
        have "op_bool (range_enumerator xs) s = Some (r_begin s \<noteq> r_end s)"
          by (simp add: range_enumerator_def range_bool_def)
        from take_drains_nonpos [OF this, of 0] 1 show ?thesis
          by (auto simp: take_new_def)
      next
        case 2
        then have n: "nat k - 1 < length ?R" and e: "int (nat k - 1) + 1 = k" "Suc (nat k - 1) = nat k"
          by auto
        from take_drains_within [OF d n] show ?thesis
          unfolding e take_new_def by blast
      next
        case 3
        then have "int (length ?R) < k" by simp
        from take_drains_beyond [OF d this] 3 show ?thesis
          by (auto simp: take_new_def)
      qed
    qed
    then show ?thesis by (auto simp: to_vector_iff)
  qed
  have 2: "op_bool (take_enumerator p) (take_new r 0) = Some False
        \<and> to_vector (take_enumerator p) (take_new r 0) = Some ([], take_new r 0)"
    if b: "op_bool p r = Some b"
    using take_drains_nonpos [OF b, of 0] b
    by (simp add: to_vector_iff take_new_def take_enumerator_def take_bool_def)
  from 1 2 show ?thesis by blast
qed

text \<open>A count below and a count above the length of the range \<open>[6, 7, 8]\<close>, and count \<open>0\<close>.\<close>

theorem take_collect_witness:
  "valid_range [5, 6, 7, 8 :: int] (range_new 1 4)
   \<and> range_elems [5, 6, 7, 8 :: int] (range_new 1 4) = [6, 7, 8]
   \<and> (\<exists>t. to_vector (take_enumerator (range_enumerator [5, 6, 7, 8 :: int]))
              (take_new (range_new 1 4) 2) = Some ([6, 7], t))
   \<and> (\<exists>t. to_vector (take_enumerator (range_enumerator [5, 6, 7, 8 :: int]))
              (take_new (range_new 1 4) 9) = Some ([6, 7, 8], t))
   \<and> op_bool (range_enumerator [5, 6, 7, 8 :: int]) (range_new 1 4) = Some True
   \<and> to_vector (take_enumerator (range_enumerator [5, 6, 7, 8 :: int])) (take_new (range_new 1 4) 0)
       = Some ([], take_new (range_new 1 4) 0)"
proof -
  have v: "valid_range [5, 6, 7, 8 :: int] (range_new 1 4)"
    by (simp add: valid_range_def range_new_def)
  have r: "range_elems [5, 6, 7, 8 :: int] (range_new 1 4) = [6, 7, 8]"
    by (simp add: range_elems_def range_new_def)
  have b: "op_bool (range_enumerator [5, 6, 7, 8 :: int]) (range_new 1 4) = Some True"
    by (simp add: range_enumerator_def range_bool_def range_new_def)
  from take_collect [of "[5, 6, 7, 8 :: int]" "range_new 1 4" 2
      "range_enumerator [5, 6, 7, 8 :: int]" "range_new 1 4" True]
    take_collect [of "[5, 6, 7, 8 :: int]" "range_new 1 4" 9
      "range_enumerator [5, 6, 7, 8 :: int]" "range_new 1 4" True]
    v r b
  show ?thesis by simp
qed

text \<open>
  C5. \<^verbatim>\<open>operator++\<close> of the limit decrements the count and advances the parent only if the
  count is still positive afterwards; otherwise the parent's state stays as it was.
  Hence, for every parent that a sink can drain to at least \<open>k\<close> elements, with \<open>k \<ge> 1\<close>,
  collecting \<^verbatim>\<open>take(k)\<close> returns the first \<open>k\<close> elements and leaves the parent in the state
  that \<open>k - 1\<close> advances lead to: the parent still stands on the \<open>k\<close>-th element, the last
  one that was taken, and the element after it has not been reached.
\<close>

theorem take_advances_parent:
  "(op_incr (take_enumerator p) t = Some t' \<longrightarrow>
      t_last t' = t_last t - 1
      \<and> (if 0 < t_last t' then op_incr p (t_parent t) = Some (t_parent t')
          else t_parent t' = t_parent t))
   \<and> (to_vector p s = Some (ys, s') \<and> 1 \<le> k \<and> k \<le> int (length ys) \<longrightarrow>
        (\<exists>sp. advance_n p (nat k - 1) s = Some sp
           \<and> to_vector (take_enumerator p) (take_new s k)
               = Some (take (nat k) ys, \<lparr>t_parent = sp, t_last = 0\<rparr>)
           \<and> op_star p sp = Some (ys ! (nat k - 1))))"
proof -
  have 1: "t_last t' = t_last t - 1
      \<and> (if 0 < t_last t' then op_incr p (t_parent t) = Some (t_parent t')
          else t_parent t' = t_parent t)"
    if "op_incr (take_enumerator p) t = Some t'"
    using that
    by (auto simp: take_enumerator_def take_incr_def Let_def split: if_splits bind_splits)
  have 2: "\<exists>sp. advance_n p (nat k - 1) s = Some sp
           \<and> to_vector (take_enumerator p) (take_new s k)
               = Some (take (nat k) ys, \<lparr>t_parent = sp, t_last = 0\<rparr>)
           \<and> op_star p sp = Some (ys ! (nat k - 1))"
    if t: "to_vector p s = Some (ys, s')" and k: "1 \<le> k" "k \<le> int (length ys)"
  proof -
    from t have d: "drains p s ys s'" by (simp add: to_vector_iff)
    from k have n: "nat k - 1 < length ys" and e: "int (nat k - 1) + 1 = k" "Suc (nat k - 1) = nat k"
      by auto
    from take_drains_within [OF d n] obtain sp where a: "advance_n p (nat k - 1) s = Some sp"
      and dt: "drains (take_enumerator p) (take_new s k) (take (nat k) ys) \<lparr>t_parent = sp, t_last = 0\<rparr>"
      unfolding e take_new_def by blast
    from advance_n_drains [OF d, of "nat k - 1"] n a
    have "drains p sp (drop (nat k - 1) ys) s'" by simp
    moreover have "drop (nat k - 1) ys = ys ! (nat k - 1) # drop (Suc (nat k - 1)) ys"
      using n by (simp add: Cons_nth_drop_Suc)
    ultimately have "op_star p sp = Some (ys ! (nat k - 1))"
      by (simp add: drains_Cons_star)
    with a dt show ?thesis by (simp add: to_vector_iff)
  qed
  from 1 2 show ?thesis by blast
qed

text \<open>Three of four elements: the range has been advanced twice and stands on the third.\<close>

theorem take_advances_parent_witness:
  "to_vector (range_enumerator [5, 6, 7, 8 :: int]) (range_new 0 4)
     = Some ([5, 6, 7, 8], range_new 4 4)
   \<and> op_incr (take_enumerator (range_enumerator [5, 6, 7, 8 :: int])) (take_new (range_new 0 4) 3)
       = Some (take_new (range_new 1 4) 2)
   \<and> op_incr (range_enumerator [5, 6, 7, 8 :: int]) (range_new 0 4) = Some (range_new 1 4)
   \<and> advance_n (range_enumerator [5, 6, 7, 8 :: int]) 2 (range_new 0 4) = Some (range_new 2 4)
   \<and> to_vector (take_enumerator (range_enumerator [5, 6, 7, 8 :: int])) (take_new (range_new 0 4) 3)
       = Some ([5, 6, 7], take_new (range_new 2 4) 0)
   \<and> op_star (range_enumerator [5, 6, 7, 8 :: int]) (range_new 2 4) = Some 7"
proof -
  have h: "to_vector (range_enumerator [5, 6, 7, 8 :: int]) (range_new 0 4)
     = Some ([5, 6, 7, 8], range_new 4 4)"
    by code_simp
  have i: "op_incr (take_enumerator (range_enumerator [5, 6, 7, 8 :: int])) (take_new (range_new 0 4) 3)
       = Some (take_new (range_new 1 4) 2)"
    by (simp add: take_enumerator_def take_incr_def take_new_def range_new_def INT_MIN_def
        range_enumerator_def range_incr_def)
  have a: "advance_n (range_enumerator [5, 6, 7, 8 :: int]) 2 (range_new 0 4) = Some (range_new 2 4)"
    by (simp add: advance_n_range range_new_def)
  from take_advances_parent [of "range_enumerator [5, 6, 7, 8 :: int]" "take_new (range_new 0 4) 3"
      "take_new (range_new 1 4) 2" "range_new 0 4" "[5, 6, 7, 8]" "range_new 4 4" 3] h i a
  show ?thesis by (simp add: take_new_def)
qed

subsection \<open>Stopping at a predicate\<close>

text \<open>
  C6. For every well-formed range and every predicate, collecting \<^verbatim>\<open>until(P)\<close> over the
  range returns the longest prefix of the range without an element that satisfies \<open>P\<close>.
  The range is left standing on the element that stopped the run, which is not part of
  the result, or exhausted if there is none. The result is empty when the first element
  satisfies \<open>P\<close>, and the whole range when no element does.
\<close>

theorem until_collect:
  "valid_range xs s \<Longrightarrow>
   (\<exists>ys. to_vector (until_enumerator (range_enumerator xs) P) s
            = Some (ys, s\<lparr>r_begin := r_begin s + length ys\<rparr>)
      \<and> ys = takeWhile (\<lambda>x. \<not> P x) (range_elems xs s)
      \<and> list_all (\<lambda>x. \<not> P x) ys
      \<and> (range_elems xs s \<noteq> [] \<and> P (hd (range_elems xs s)) \<longrightarrow> ys = [])
      \<and> (list_all (\<lambda>x. \<not> P x) (range_elems xs s) \<longrightarrow> ys = range_elems xs s))"
proof -
  assume v: "valid_range xs s"
  let ?R = "range_elems xs s" and ?ys = "takeWhile (\<lambda>x. \<not> P x) (range_elems xs s)"
  from v have d: "drains (range_enumerator xs) s ?R (s\<lparr>r_begin := r_end s\<rparr>)"
    by (rule drains_range)
  from until_drains [OF d, of P] obtain s1 where
    u: "drains (until_enumerator (range_enumerator xs) P) s ?ys s1"
    and a: "advance_n (range_enumerator xs) (length ?ys) s = Some s1"
    by blast
  from v have "r_begin s \<le> length xs" by (simp add: valid_range_def)
  from a [unfolded advance_n_range [OF this]]
  have s1: "s1 = s\<lparr>r_begin := r_begin s + length ?ys\<rparr>"
    by (simp split: if_splits)
  have "list_all (\<lambda>x. \<not> P x) ?ys"
    by (auto simp: list_all_iff dest: set_takeWhileD)
  moreover have "?R \<noteq> [] \<and> P (hd ?R) \<longrightarrow> ?ys = []"
    by (cases ?R) auto
  moreover have "list_all (\<lambda>x. \<not> P x) ?R \<longrightarrow> ?ys = ?R"
    by (auto simp: list_all_iff)
  ultimately show ?thesis using u s1 by (simp add: to_vector_iff)
qed

text \<open>A stop in the middle, a stop at the first element, and no stop at all.\<close>

theorem until_collect_witness:
  "valid_range [5, 6, 7, 8 :: int] (range_new 0 3)
   \<and> range_elems [5, 6, 7, 8 :: int] (range_new 0 3) = [5, 6, 7]
   \<and> to_vector (until_enumerator (range_enumerator [5, 6, 7, 8 :: int]) (\<lambda>x. x = 6)) (range_new 0 3)
       = Some ([5], range_new 1 3)
   \<and> to_vector (until_enumerator (range_enumerator [5, 6, 7, 8 :: int]) (\<lambda>x. x = 5)) (range_new 0 3)
       = Some ([], range_new 0 3)
   \<and> to_vector (until_enumerator (range_enumerator [5, 6, 7, 8 :: int]) (\<lambda>x. x = 8)) (range_new 0 3)
       = Some ([5, 6, 7], range_new 3 3)"
  using until_collect [of "[5, 6, 7, 8 :: int]" "range_new 0 3" "\<lambda>x. x = 6"]
    until_collect [of "[5, 6, 7, 8 :: int]" "range_new 0 3" "\<lambda>x. x = 5"]
    until_collect [of "[5, 6, 7, 8 :: int]" "range_new 0 3" "\<lambda>x. x = 8"]
  by (simp add: valid_range_def range_elems_def range_new_def)

text \<open>
  C7. \<^verbatim>\<open>operator++\<close> of the take-until adapter is the parent's \<^verbatim>\<open>operator++\<close> where the adapter
  has an element. Where it has none, because the parent is exhausted or because the
  parent's element satisfies the stopping predicate, any number of calls returns the
  state unchanged. The calls do not reach the parent: the result is the same over a
  parent whose \<^verbatim>\<open>operator++\<close> has no defined result at all.
\<close>

theorem until_advance_guard:
  "(op_bool (until_enumerator p P) s = Some True \<longrightarrow>
      op_incr (until_enumerator p P) s = op_incr p s)
   \<and> (op_bool (until_enumerator p P) s = Some False \<longrightarrow>
        advance_n (until_enumerator p P) n s = Some s
        \<and> advance_n (until_enumerator (p\<lparr>op_incr := \<lambda>_. None\<rparr>) P) n s = Some s)
   \<and> (op_bool p s = Some False \<longrightarrow> op_bool (until_enumerator p P) s = Some False)
   \<and> (op_bool p s = Some True \<and> op_star p s = Some v \<and> P v \<longrightarrow>
        op_bool (until_enumerator p P) s = Some False)"
proof -
  have 1: "op_incr (until_enumerator p P) s = op_incr p s"
    if "op_bool (until_enumerator p P) s = Some True"
    using that by (simp add: until_enumerator_def until_incr_def)
  have 2: "advance_n (until_enumerator p P) n s = Some s
        \<and> advance_n (until_enumerator (p\<lparr>op_incr := \<lambda>_. None\<rparr>) P) n s = Some s"
    if "op_bool (until_enumerator p P) s = Some False"
  proof -
    from that have b: "until_bool p P s = Some False" by (simp add: until_enumerator_def)
    then have "until_bool (p\<lparr>op_incr := \<lambda>_. None\<rparr>) P s = Some False"
      by (simp add: until_bool_def cong: if_cong)
    with b show ?thesis by (simp add: advance_n_until_stopped)
  qed
  have 3: "op_bool (until_enumerator p P) s = Some False" if "op_bool p s = Some False"
    using that by (simp add: until_enumerator_def until_bool_def)
  have 4: "op_bool (until_enumerator p P) s = Some False"
    if "op_bool p s = Some True \<and> op_star p s = Some v \<and> P v"
    using that by (simp add: until_enumerator_def until_bool_def)
  from 1 2 3 4 show ?thesis by blast
qed

text \<open>Before the stop, at the stop, and at the end of the range.\<close>

theorem until_advance_guard_witness:
  "op_bool (until_enumerator (range_enumerator [5, 6, 7 :: int]) (\<lambda>x. x = 6)) (range_new 0 3) = Some True
   \<and> op_incr (until_enumerator (range_enumerator [5, 6, 7 :: int]) (\<lambda>x. x = 6)) (range_new 0 3)
       = Some (range_new 1 3)
   \<and> op_bool (range_enumerator [5, 6, 7 :: int]) (range_new 1 3) = Some True
   \<and> op_star (range_enumerator [5, 6, 7 :: int]) (range_new 1 3) = Some 6
   \<and> op_bool (until_enumerator (range_enumerator [5, 6, 7 :: int]) (\<lambda>x. x = 6)) (range_new 1 3) = Some False
   \<and> advance_n (until_enumerator (range_enumerator [5, 6, 7 :: int]) (\<lambda>x. x = 6)) 4 (range_new 1 3)
       = Some (range_new 1 3)
   \<and> op_bool (range_enumerator [5, 6, 7 :: int]) (range_new 3 3) = Some False
   \<and> advance_n (until_enumerator (range_enumerator [5, 6, 7 :: int]) (\<lambda>x. x = 6)) 4 (range_new 3 3)
       = Some (range_new 3 3)"
proof -
  have t: "op_bool (until_enumerator (range_enumerator [5, 6, 7 :: int]) (\<lambda>x. x = 6)) (range_new 0 3)
      = Some True"
    by (simp add: until_enumerator_def until_bool_def range_enumerator_def range_bool_def
        range_star_def range_new_def)
  have i: "op_incr (range_enumerator [5, 6, 7 :: int]) (range_new 0 3) = Some (range_new 1 3)"
    by (simp add: range_enumerator_def range_incr_def range_new_def)
  have b: "op_bool (range_enumerator [5, 6, 7 :: int]) (range_new 1 3) = Some True"
    "op_star (range_enumerator [5, 6, 7 :: int]) (range_new 1 3) = Some 6"
    "op_bool (range_enumerator [5, 6, 7 :: int]) (range_new 3 3) = Some False"
    by (simp_all add: range_enumerator_def range_bool_def range_star_def range_new_def)
  from until_advance_guard [of "range_enumerator [5, 6, 7 :: int]" "\<lambda>x. x = 6" "range_new 0 3" 4 6]
    until_advance_guard [of "range_enumerator [5, 6, 7 :: int]" "\<lambda>x. x = 6" "range_new 1 3" 4 6]
    until_advance_guard [of "range_enumerator [5, 6, 7 :: int]" "\<lambda>x. x = 6" "range_new 3 3" 4 6]
    t i b
  show ?thesis by simp
qed

subsection \<open>Mapping\<close>

text \<open>
  C8. The functor laws, as far as they hold. For every parent, collecting through
  \<^verbatim>\<open>select(f)\<close> is collecting the parent and applying to each element \<open>f\<close> followed by the
  conversion of its result to the adapter's element type; the parent is left in the same
  state, and one side has no defined result exactly when the other has none. Collecting
  through \<^verbatim>\<open>select(f).select(g)\<close> is collecting through one \<^verbatim>\<open>select\<close> of \<open>g\<close> after the
  conversion after \<open>f\<close>. Where the result type of \<open>f\<close> is the element type of
  \<^verbatim>\<open>select(f)\<close>, so that the conversion is the identity, these are the two laws: the
  result is \<open>f\<close> applied element-wise, and \<^verbatim>\<open>select(f).select(g)\<close> collects as \<^verbatim>\<open>select\<close> of the
  composition of \<open>g\<close> after \<open>f\<close>.
\<close>

theorem select_functor:
  "to_vector (select_enumerator p f c) s
     = map_option (\<lambda>(ys, s'). (map (\<lambda>x. c (f x)) ys, s')) (to_vector p s)
   \<and> to_vector (select_enumerator (select_enumerator p f c) g d) s
       = to_vector (select_enumerator p (\<lambda>x. g (c (f x))) d) s
   \<and> to_vector (select_enumerator p f id) s
       = map_option (\<lambda>(ys, s'). (map f ys, s')) (to_vector p s)
   \<and> to_vector (select_enumerator (select_enumerator p f id) g d) s
       = to_vector (select_enumerator p (g \<circ> f) d) s"
  by (simp add: select_select to_vector_select comp_def)

text \<open>
  Without that condition both laws fail. Over the vector \<open>{1, 3}\<close> of \<^verbatim>\<open>int\<close>, let \<open>f\<close> halve
  its argument as a \<^verbatim>\<open>double\<close> and \<open>g\<close> double a \<^verbatim>\<open>double\<close>, and let \<^verbatim>\<open>U\<close> be the default,
  \<^verbatim>\<open>int\<close>. Then \<^verbatim>\<open>select(f)\<close> collects \<open>[0, 1]\<close>, which is not \<open>f\<close> applied element-wise,
  \<open>[1/2, 3/2]\<close>; \<^verbatim>\<open>select(f).select(g)\<close>, where \<open>g\<close> receives the converted elements,
  collects \<open>[0, 2]\<close>, and \<^verbatim>\<open>select\<close> of the composition collects \<open>[1, 3]\<close>.
\<close>

theorem select_functor_counterexample:
  "to_vector (select_enumerator (range_enumerator [1, 3 :: int]) (\<lambda>x. rat_of_int x / 2)
       double_to_int) (range_new 0 2)
     = Some ([0, 1], range_new 2 2)
   \<and> map_option (\<lambda>(ys, s'). (map (\<lambda>x. rat_of_int x / 2) ys, s'))
         (to_vector (range_enumerator [1, 3 :: int]) (range_new 0 2))
     = Some ([1 / 2, 3 / 2], range_new 2 2)
   \<and> map rat_of_int [0, 1] \<noteq> [1 / 2, 3 / 2]
   \<and> to_vector (select_enumerator
         (select_enumerator (range_enumerator [1, 3 :: int]) (\<lambda>x. rat_of_int x / 2) double_to_int)
         (\<lambda>y. rat_of_int y * 2) double_to_int) (range_new 0 2)
     = Some ([0, 2], range_new 2 2)
   \<and> to_vector (select_enumerator (range_enumerator [1, 3 :: int])
         ((\<lambda>y. y * 2) \<circ> (\<lambda>x. rat_of_int x / 2)) double_to_int) (range_new 0 2)
     = Some ([1, 3], range_new 2 2)
   \<and> to_vector (select_enumerator
         (select_enumerator (range_enumerator [1, 3 :: int]) (\<lambda>x. rat_of_int x / 2) double_to_int)
         (\<lambda>y. rat_of_int y * 2) double_to_int) (range_new 0 2)
     \<noteq> to_vector (select_enumerator (range_enumerator [1, 3 :: int])
         ((\<lambda>y. y * 2) \<circ> (\<lambda>x. rat_of_int x / 2)) double_to_int) (range_new 0 2)"
proof -
  have r: "to_vector (range_enumerator [1, 3 :: int]) (range_new 0 2)
      = Some ([1, 3], range_new 2 2)"
    by code_simp
  have h: "\<lfloor>1 / 2 :: rat\<rfloor> = 0" "\<lfloor>3 / 2 :: rat\<rfloor> = 1"
    by (simp_all add: floor_eq_iff)
  show ?thesis
    by (simp add: select_select to_vector_select r double_to_int_def h)
qed

subsection \<open>The two sinks\<close>

text \<open>
  C9. For every enumerator and every state from which \<^verbatim>\<open>to_vector\<close> returns a vector,
  \<^verbatim>\<open>copy_to\<close> into a buffer with room for it writes that vector, element by element from
  the given position on, changes nothing else in the buffer, and leaves the enumerator in
  the state in which \<^verbatim>\<open>to_vector\<close> leaves it; in that state the enumerator is exhausted.
  On an exhausted enumerator \<^verbatim>\<open>to_vector\<close> returns the empty vector, \<^verbatim>\<open>copy_to\<close> writes
  nothing, and neither changes the state.
\<close>

theorem sinks_agree:
  "(to_vector e s = Some (ys, s') \<and> it + length ys \<le> length out \<longrightarrow>
      copy_to e out it s = Some (take it out @ ys @ drop (it + length ys) out, s')
      \<and> op_bool e s' = Some False)
   \<and> (op_bool e s = Some False \<longrightarrow>
        to_vector e s = Some ([], s) \<and> copy_to e out it s = Some (out, s))"
proof -
  have 1: "copy_to e out it s = Some (take it out @ ys @ drop (it + length ys) out, s')
      \<and> op_bool e s' = Some False"
    if "to_vector e s = Some (ys, s') \<and> it + length ys \<le> length out"
  proof -
    from that have d: "drains e s ys s'" and l: "it + length ys \<le> length out"
      by (simp_all add: to_vector_iff)
    from copy_to_loop_drains [OF d l] drains_exhausted [OF d] show ?thesis
      by (simp add: copy_to_def)
  qed
  have 2: "to_vector e s = Some ([], s) \<and> copy_to e out it s = Some (out, s)"
    if b: "op_bool e s = Some False"
  proof -
    have "to_vector e s = Some ([], s)"
      unfolding to_vector_def using b by (subst to_vector_loop.simps) simp
    moreover have "copy_to e out it s = Some (out, s)"
      unfolding copy_to_def using b by (subst copy_to_loop.simps) simp
    ultimately show ?thesis by simp
  qed
  from 1 2 show ?thesis by blast
qed

text \<open>Two elements copied into the middle of a buffer of four, then the sinks once more.\<close>

theorem sinks_agree_witness:
  "to_vector (range_enumerator [5, 6, 7 :: int]) (range_new 1 3) = Some ([6, 7], range_new 3 3)
   \<and> copy_to (range_enumerator [5, 6, 7 :: int]) [0, 0, 0, 0] 1 (range_new 1 3)
       = Some ([0, 6, 7, 0], range_new 3 3)
   \<and> op_bool (range_enumerator [5, 6, 7 :: int]) (range_new 3 3) = Some False
   \<and> to_vector (range_enumerator [5, 6, 7 :: int]) (range_new 3 3) = Some ([], range_new 3 3)
   \<and> copy_to (range_enumerator [5, 6, 7 :: int]) [0, 0, 0, 0] 1 (range_new 3 3)
       = Some ([0, 0, 0, 0], range_new 3 3)"
proof -
  have h: "to_vector (range_enumerator [5, 6, 7 :: int]) (range_new 1 3) = Some ([6, 7], range_new 3 3)"
    by code_simp
  have b: "op_bool (range_enumerator [5, 6, 7 :: int]) (range_new 3 3) = Some False"
    by (simp add: range_enumerator_def range_bool_def range_new_def)
  from sinks_agree [of "range_enumerator [5, 6, 7 :: int]" "range_new 1 3" "[6, 7]" "range_new 3 3"
      1 "[0, 0, 0, 0]"]
    sinks_agree [of "range_enumerator [5, 6, 7 :: int]" "range_new 3 3" "[]" "range_new 3 3"
      1 "[0, 0, 0, 0]"]
    h b
  show ?thesis by simp
qed

subsection \<open>Negative counts\<close>

text \<open>
  C10. With a negative count, the constructor of \<^verbatim>\<open>drop_enumerator\<close> over a range returns
  the range's state unchanged, as it does with count \<open>0\<close>; it does not advance the range,
  and it returns the same over a parent whose \<^verbatim>\<open>operator++\<close> has no defined result. With a
  negative count \<^verbatim>\<open>take_enumerator\<close> over a range is exhausted from the start and collects
  the empty vector, as it does with count \<open>0\<close>.
\<close>

theorem negative_counts:
  "n < 0 \<Longrightarrow>
   drop_new (range_enumerator xs) n s = Some s
   \<and> drop_new (range_enumerator xs) n s = drop_new (range_enumerator xs) 0 s
   \<and> drop_new ((range_enumerator xs)\<lparr>op_incr := \<lambda>_. None\<rparr>) n s = Some s
   \<and> op_bool (take_enumerator (range_enumerator xs)) (take_new s n) = Some False
   \<and> to_vector (take_enumerator (range_enumerator xs)) (take_new s n) = Some ([], take_new s n)
   \<and> to_vector (take_enumerator (range_enumerator xs)) (take_new s 0) = Some ([], take_new s 0)"
proof -
  assume n: "n < 0"
  have b: "op_bool (range_enumerator xs) s = Some (r_begin s \<noteq> r_end s)"
    by (simp add: range_enumerator_def range_bool_def)
  have t: "to_vector (take_enumerator (range_enumerator xs)) (take_new s k) = Some ([], take_new s k)"
    if "k \<le> 0" for k
    using take_drains_nonpos [OF b that] by (simp add: to_vector_iff take_new_def)
  have "op_bool (take_enumerator (range_enumerator xs)) (take_new s n) = Some False"
    using n b by (simp add: take_enumerator_def take_bool_def take_new_def)
  with n t [of n] t [of 0] show ?thesis
    by (simp add: drop_new_advance)
qed

theorem negative_counts_witness:
  "(- 3 :: int) < 0
   \<and> drop_new (range_enumerator [5, 6, 7 :: int]) (- 3) (range_new 0 3) = Some (range_new 0 3)
   \<and> drop_new (range_enumerator [5, 6, 7 :: int]) 0 (range_new 0 3) = Some (range_new 0 3)
   \<and> op_bool (take_enumerator (range_enumerator [5, 6, 7 :: int])) (take_new (range_new 0 3) (- 3))
       = Some False
   \<and> to_vector (take_enumerator (range_enumerator [5, 6, 7 :: int])) (take_new (range_new 0 3) (- 3))
       = Some ([], take_new (range_new 0 3) (- 3))"
  using negative_counts [of "- 3" "[5, 6, 7 :: int]" "range_new 0 3"]
  by auto

end
